theory Spec2Isabelle
  imports Main
begin

section \<open>Images, exceptions, notifications\<close>

type_synonym addr = nat
type_synonym bytes = string

text \<open>
  Modelled from the spec: \<^verbatim>\<open>models.Image\<close> is imported by \<^verbatim>\<open>_main_window.py\<close> but its
  module is not among the source files.  The spec describes an Image Reference as an
  immutable record of a source filesystem path and an archive-relative POSIX path; the
  source reads the latter as \<^verbatim>\<open>img.posix_path\<close>.
\<close>

record Image =
  path :: string
  posix_path :: string

text \<open>
  The exception classes that occur.  All of them derive from \<^verbatim>\<open>Exception\<close>; only
  \<open>ReError\<close> is \<^verbatim>\<open>re.error\<close>.
\<close>

datatype exn = ReError | OverflowError | RecursionError | IndexError | OSError string

text \<open>The three signals of \<^verbatim>\<open>ArchiveWriterThread\<close>: \<^verbatim>\<open>step(int, Image)\<close>,
  \<^verbatim>\<open>completed()\<close> and \<^verbatim>\<open>error(Exception)\<close>.\<close>

datatype notification = Step nat Image | Completed | Error exn

fun terminal :: "notification \<Rightarrow> bool" where
  "terminal (Step i img) = False"
| "terminal Completed = True"
| "terminal (Error e) = True"

section \<open>The file system\<close>

text \<open>
  A file system, as far as an export touches it: the files that can be read, with their
  contents; the paths that can be opened for writing; and, for the files that are
  archives, the list of their members (name and content) in the order they were added.
\<close>

record filesystem =
  files :: "string \<rightharpoonup> bytes"
  writable :: "string \<Rightarrow> bool"
  archives :: "string \<rightharpoonup> (string \<times> bytes) list"

text \<open>
  Modelled from the spec: the bytes of an archive file.  The container format is the
  business of \<^verbatim>\<open>utils.write_archive\<close>, which is not among the source files, and the spec
  says of it only that it holds the members, in order.  Here a member is laid down as its
  name followed by its content; nothing that is proved depends on the layout.
\<close>

definition archive_bytes :: "(string \<times> bytes) list \<Rightarrow> bytes" where
  "archive_bytes members = concat (map (\<lambda>(name, content). name @ content) members)"

text \<open>The file at \<open>dest\<close> is written anew as the archive with the given members; what the
  path held before is gone.\<close>

definition put_archive :: "string \<Rightarrow> (string \<times> bytes) list \<Rightarrow> filesystem \<Rightarrow> filesystem" where
  "put_archive dest members fs =
     fs\<lparr>files := (files fs)(dest \<mapsto> archive_bytes members),
        archives := (archives fs)(dest \<mapsto> members)\<rparr>"

section \<open>Generators\<close>

text \<open>
  A Python generator that ends after finitely many items.  Making it runs nothing.
  Each \<^verbatim>\<open>next\<close> runs its body from where it stands, on the file system as it is then, up
  to the next \<^verbatim>\<open>yield\<close>, the return (\<^verbatim>\<open>StopIteration\<close>) or an exception, and leaves the
  file system as the body has written it so far.
\<close>

datatype 'a generator = Generator "filesystem \<Rightarrow> 'a resumption \<times> filesystem"
and 'a resumption = Yield 'a "'a generator" | Return | Raise exn

text \<open>One \<^verbatim>\<open>next\<close>: what the generator hands back, and the file system it leaves.\<close>

fun resume :: "'a generator \<Rightarrow> filesystem \<Rightarrow> 'a resumption \<times> filesystem" where
  "resume (Generator body) fs = body fs"

text \<open>What a generator does when it is pulled until it ends, the first \<^verbatim>\<open>next\<close> finding
  the file system \<open>fs\<close> and nobody else writing meanwhile: the items it yields, the
  exception that ends it, if any, and the file system it leaves.\<close>

function (domintros) exhaust ::
  "'a generator \<Rightarrow> filesystem \<Rightarrow> 'a list \<times> exn option \<times> filesystem"
where
  "exhaust (Generator body) fs =
     (case body fs of
        (Yield x g, fs') \<Rightarrow> (case exhaust g fs' of (xs, rest) \<Rightarrow> (x # xs, rest))
      | (Return, fs') \<Rightarrow> ([], None, fs')
      | (Raise e, fs') \<Rightarrow> ([], Some e, fs'))"
  by pat_completeness auto
termination
proof -
  have total: "\<forall>fs. exhaust_dom (g, fs)"
    and "\<forall>x g' fs. r = Yield x g' \<longrightarrow> exhaust_dom (g', fs)"
    for g :: "'a generator" and r :: "'a resumption"
  proof (induction g and r)
    case (Generator body)
    show ?case
    proof (intro allI)
      fix fs
      show "exhaust_dom (Generator body, fs)"
      proof (rule exhaust.domintros)
        fix fs' x g'
        assume a: "(Yield x g', fs') = body fs"
        have "body fs \<in> range body" by simp
        moreover have "Yield x g' \<in> Basic_BNFs.fsts (body fs)"
          using a by (metis fsts.intros fst_conv)
        ultimately show "exhaust_dom (g', fs')"
          using Generator.IH by blast
      qed
    qed
  qed simp_all
  show ?thesis using total by (metis surj_pair)
qed

definition yields :: "'a generator \<Rightarrow> filesystem \<Rightarrow> 'a list" where
  "yields g fs = fst (exhaust g fs)"

definition raised :: "'a generator \<Rightarrow> filesystem \<Rightarrow> exn option" where
  "raised g fs = fst (snd (exhaust g fs))"

definition leaves :: "'a generator \<Rightarrow> filesystem \<Rightarrow> filesystem" where
  "leaves g fs = snd (snd (exhaust g fs))"

section \<open>The archive writer\<close>

text \<open>
  Modelled from the spec: \<^verbatim>\<open>utils.write_archive\<close> is imported by \<^verbatim>\<open>_main_window.py\<close> but
  its module is not among the source files.  Spec, section 4.1: given a destination
  path and an ordered sequence of images, the writer is a lazy sequence with one item for
  each image, in input order.  It creates or overwrites the destination, and for each
  image reads the source file in full, appends it to the archive as a new member named by
  the archive-relative path, and yields; the archive is complete only when the sequence
  has been consumed to its end.  It fails with an I/O error if the destination cannot be
  opened or a source file cannot be read; on the first failure nothing more is processed
  and the archive stays partially written.  No check of the member names is made.  The
  source enumerates what the generator yields and sends each item through
  \<^verbatim>\<open>Signal(int, Image)\<close>, so the generator yields the images themselves.

  \<open>add_members\<close> is the loop of the writer, standing before the images that are left,
  with the members written so far.  The destination is opened by the first \<^verbatim>\<open>next\<close>, which
  goes on to the first image.
\<close>

fun add_members :: "string \<Rightarrow> (string \<times> bytes) list \<Rightarrow> Image list \<Rightarrow> Image generator" where
  "add_members dest members [] = Generator (\<lambda>fs. (Return, fs))"
| "add_members dest members (img # imgs) =
     Generator (\<lambda>fs.
       case files fs (path img) of
         None \<Rightarrow> (Raise (OSError (path img)), fs)
       | Some content \<Rightarrow>
           (Yield img (add_members dest (members @ [(posix_path img, content)]) imgs),
            put_archive dest (members @ [(posix_path img, content)]) fs))"

definition write_archive :: "string \<Rightarrow> Image list \<Rightarrow> Image generator" where
  "write_archive archive_file imgs =
     Generator (\<lambda>fs.
       if writable fs archive_file
       then resume (add_members archive_file [] imgs) (put_archive archive_file [] fs)
       else (Raise (OSError archive_file), fs))"

section \<open>The background thread\<close>

text \<open>
  Python objects are shared by reference.  The image collection of the window is one
  object on the heap; whoever holds its address sees every later change of it.
\<close>

type_synonym heap = "addr \<Rightarrow> Image list"

record ArchiveWriterThread =
  thread_archive_file :: string
  thread_images :: addr

text \<open>\<^verbatim>\<open>ArchiveWriterThread.__init__\<close>: both arguments are stored as they are; the
  sequence is not copied.\<close>

definition ArchiveWriterThread_init :: "string \<Rightarrow> addr \<Rightarrow> ArchiveWriterThread" where
  "ArchiveWriterThread_init archive_file imgs =
     \<lparr>thread_archive_file = archive_file, thread_images = imgs\<rparr>"

text \<open>The loop \<^verbatim>\<open>for i, img in enumerate(archive_writer): self.step.emit(i, img)\<close>.
  Each turn pulls the generator once, on the file system as it stands.  The loop ends
  when the generator returns, or is left by the exception the generator raises; what has
  been emitted stays emitted, and the file system is as the pulls have left it.\<close>

function (domintros) for_loop ::
  "nat \<Rightarrow> Image generator \<Rightarrow> filesystem \<Rightarrow> notification list
     \<Rightarrow> notification list \<times> exn option \<times> filesystem"
where
  "for_loop i (Generator body) fs emitted =
     (case body fs of
        (Yield img g, fs') \<Rightarrow> for_loop (Suc i) g fs' (emitted @ [Step i img])
      | (Return, fs') \<Rightarrow> (emitted, None, fs')
      | (Raise e, fs') \<Rightarrow> (emitted, Some e, fs'))"
  by pat_completeness auto
termination
proof -
  have total: "\<forall>i fs emitted. for_loop_dom (i, g, fs, emitted)"
    and "\<forall>img g' i fs emitted. r = Yield img g' \<longrightarrow> for_loop_dom (i, g', fs, emitted)"
    for g :: "Image generator" and r :: "Image resumption"
  proof (induction g and r)
    case (Generator body)
    show ?case
    proof (intro allI)
      fix i fs emitted
      show "for_loop_dom (i, Generator body, fs, emitted)"
      proof (rule for_loop.domintros)
        fix fs' img g'
        assume a: "(Yield img g', fs') = body fs"
        have "body fs \<in> range body" by simp
        moreover have "Yield img g' \<in> Basic_BNFs.fsts (body fs)"
          using a by (metis fsts.intros fst_conv)
        ultimately show "for_loop_dom (Suc i, g', fs', emitted @ [Step i img])"
          using Generator.IH by blast
      qed
    qed
  qed simp_all
  show ?thesis using total by (metis surj_pair)
qed

text \<open>The body of \<^verbatim>\<open>run\<close> for a given generator: the loop, then \<^verbatim>\<open>completed\<close>;
  \<^verbatim>\<open>except Exception as e\<close> sends \<^verbatim>\<open>error(e)\<close> instead.  The result is what has been
  emitted and the file system as the loop has left it.\<close>

definition run_body :: "Image generator \<Rightarrow> filesystem \<Rightarrow> notification list \<times> filesystem" where
  "run_body archive_writer fs =
     (case for_loop 0 archive_writer fs [] of
        (emitted, None, fs') \<Rightarrow> (emitted @ [Completed], fs')
      | (emitted, Some e, fs') \<Rightarrow> (emitted @ [Error e], fs'))"

text \<open>\<^verbatim>\<open>ArchiveWriterThread.run\<close>: the sequence is read through the stored reference when
  the thread runs; the call of \<^verbatim>\<open>write_archive\<close> makes the generator, the loop pulls it.\<close>

definition run ::
  "ArchiveWriterThread \<Rightarrow> heap \<Rightarrow> filesystem \<Rightarrow> notification list \<times> filesystem"
where
  "run self h fs =
     (let archive_writer = write_archive (thread_archive_file self) (h (thread_images self))
      in run_body archive_writer fs)"

section \<open>The main window\<close>

text \<open>A compiled pattern object (\<^verbatim>\<open>re.Pattern\<close>), as \<^verbatim>\<open>re.compile\<close> returns it.\<close>

datatype Pattern = Pattern string

datatype status = Ready | Creating_archive | Archive_created | Error_message exn

text \<open>
  The fields of the window and the state of its widgets that the handlers read or write:
  \<^verbatim>\<open>_thread\<close>; the reference \<^verbatim>\<open>_images\<close> to the collection; the pattern held by the table
  model; the style sheet of the line edit; of the selection model, whether it has a
  selection (\<^verbatim>\<open>hasSelection()\<close>) and its selected rows (\<^verbatim>\<open>selectedRows()\<close>); whether each of
  the two buttons is enabled; the status bar message and the progress bar.
\<close>

record MainWindow =
  thread :: "ArchiveWriterThread option"
  images :: addr
  posix_path_pattern :: "Pattern option"
  regex_line_edit_style_sheet :: string
  has_selection :: bool
  selected_rows :: "nat list"
  remove_selected_rows_button_enabled :: bool
  create_archive_button_enabled :: bool
  status_bar_message :: status
  progress_bar_hidden :: bool
  progress_bar_maximum :: int
  progress_bar_value :: int

text \<open>\<^verbatim>\<open>_update_button_states\<close>.\<close>

definition update_button_states :: "heap \<Rightarrow> MainWindow \<Rightarrow> MainWindow" where
  "update_button_states h self =
     self\<lparr>remove_selected_rows_button_enabled :=
            (thread self = None \<and> has_selection self),
          create_archive_button_enabled :=
            (thread self = None
             \<and> length (h (images self)) > 0
             \<and> card (set (map posix_path (h (images self)))) = length (h (images self)))\<rparr>"

text \<open>\<^verbatim>\<open>__init__\<close>, as far as the state above goes: a new, empty collection at a fresh
  address \<open>a\<close>, the widgets with their initial settings, then \<^verbatim>\<open>_update_button_states\<close>.\<close>

definition MainWindow_init :: "addr \<Rightarrow> heap \<Rightarrow> MainWindow \<times> heap" where
  "MainWindow_init a h =
     (let h' = h(a := [])
      in (update_button_states h'
            \<lparr>thread = None, images = a, posix_path_pattern = None,
             regex_line_edit_style_sheet = [], has_selection = False, selected_rows = [],
             remove_selected_rows_button_enabled = True,
             create_archive_button_enabled = True,
             status_bar_message = Ready, progress_bar_hidden = True,
             progress_bar_maximum = 100, progress_bar_value = - 1\<rparr>,
          h'))"

text \<open>
  Modelled from the spec: \<^verbatim>\<open>ImageTableModel.set_posix_path_pattern\<close> belongs to the widgets
  module, which is not among the source files.  The spec has the pattern narrow the
  displayed set only; the model keeps the pattern it is given.
\<close>

definition set_posix_path_pattern :: "Pattern option \<Rightarrow> MainWindow \<Rightarrow> MainWindow" where
  "set_posix_path_pattern p self = self\<lparr>posix_path_pattern := p\<rparr>"

text \<open>
  \<^verbatim>\<open>_on_regex_line_edit_text_changed\<close>.  \<^verbatim>\<open>re.compile\<close> is the library's and is a parameter:
  it returns a pattern or raises.  The handler catches \<^verbatim>\<open>re.error\<close> and nothing else, so
  any other exception leaves the handler.
\<close>

definition on_regex_line_edit_text_changed ::
  "(string \<Rightarrow> exn + Pattern) \<Rightarrow> string \<Rightarrow> MainWindow \<Rightarrow> exn + MainWindow"
where
  "on_regex_line_edit_text_changed re_compile text self =
     (if text \<noteq> [] then
        (case re_compile text of
           Inr compiled \<Rightarrow>
             Inr (set_posix_path_pattern (Some compiled)
                    (self\<lparr>regex_line_edit_style_sheet := ''background-color: white''\<rparr>))
         | Inl e \<Rightarrow>
             if e = ReError
             then Inr (set_posix_path_pattern None
                         (self\<lparr>regex_line_edit_style_sheet := ''background-color: red''\<rparr>))
             else Inl e)
      else Inr (set_posix_path_pattern None
                  (self\<lparr>regex_line_edit_style_sheet := ''background-color: white''\<rparr>)))"

text \<open>
  Modelled from the spec: \<^verbatim>\<open>ConsensusImageList.pop\<close> belongs to the widgets module, which
  is not among the source files.  The spec has the collection accept removal by
  index; as for every Python sequence, an index past the end raises \<^verbatim>\<open>IndexError\<close>.  The
  collection is changed in place.
\<close>

definition pop :: "addr \<Rightarrow> nat \<Rightarrow> heap \<Rightarrow> exn + heap" where
  "pop a i h =
     (if i < length (h a) then Inr (h(a := take i (h a) @ drop (Suc i) (h a)))
      else Inl IndexError)"

text \<open>\<^verbatim>\<open>sorted(rows, key=lambda index: index.row(), reverse=True)\<close> on row numbers.\<close>

definition sorted_reverse :: "nat list \<Rightarrow> nat list" where
  "sorted_reverse rows = rev (sort rows)"

fun pop_each :: "addr \<Rightarrow> nat list \<Rightarrow> heap \<Rightarrow> heap \<times> exn option" where
  "pop_each a [] h = (h, None)"
| "pop_each a (row # rows) h =
     (case pop a row h of
        Inl e \<Rightarrow> (h, Some e)
      | Inr h' \<Rightarrow> pop_each a rows h')"

text \<open>\<^verbatim>\<open>_on_remove_selected_rows_button_clicked\<close>: the collection after the pops, and the
  exception that ended the loop, if any.\<close>

definition on_remove_selected_rows_button_clicked ::
  "MainWindow \<Rightarrow> heap \<Rightarrow> heap \<times> exn option"
where
  "on_remove_selected_rows_button_clicked self h =
     pop_each (images self) (sorted_reverse (selected_rows self)) h"

text \<open>
  \<^verbatim>\<open>_on_create_archive_button_clicked\<close>; \<open>archive_file\<close> is what the file dialog returned,
  empty when it was cancelled.  The result is the window and the thread on which
  \<^verbatim>\<open>start()\<close> was called, if any.
\<close>

definition on_create_archive_button_clicked ::
  "string \<Rightarrow> heap \<Rightarrow> MainWindow \<Rightarrow> MainWindow \<times> ArchiveWriterThread option"
where
  "on_create_archive_button_clicked archive_file h self =
     (if archive_file \<noteq> [] then
        (let t = ArchiveWriterThread_init archive_file (images self);
             self1 = update_button_states h (self\<lparr>thread := Some t\<rparr>)
         in (self1\<lparr>status_bar_message := Creating_archive,
                   progress_bar_maximum := int (length (h (images self))),
                   progress_bar_hidden := False,
                   progress_bar_value := 0\<rparr>,
             Some t))
      else (self, None))"

text \<open>The three slots connected in \<^verbatim>\<open>_on_create_archive_button_clicked\<close>.\<close>

definition on_thread_step :: "nat \<Rightarrow> Image \<Rightarrow> MainWindow \<Rightarrow> MainWindow" where
  "on_thread_step i img self = self\<lparr>progress_bar_value := int i + 1\<rparr>"

definition on_thread_completed :: "heap \<Rightarrow> MainWindow \<Rightarrow> MainWindow" where
  "on_thread_completed h self =
     update_button_states h
       (self\<lparr>status_bar_message := Archive_created, progress_bar_hidden := True,
             thread := None\<rparr>)"

definition on_thread_error :: "exn \<Rightarrow> heap \<Rightarrow> MainWindow \<Rightarrow> MainWindow" where
  "on_thread_error e h self =
     update_button_states h
       (self\<lparr>status_bar_message := Error_message e, progress_bar_hidden := True,
             thread := None\<rparr>)"

fun deliver :: "notification \<Rightarrow> heap \<Rightarrow> MainWindow \<Rightarrow> MainWindow" where
  "deliver (Step i img) h self = on_thread_step i img self"
| "deliver Completed h self = on_thread_completed h self"
| "deliver (Error e) h self = on_thread_error e h self"

section \<open>The events of the window\<close>

text \<open>
  A started thread whose notifications have not all been delivered: the thread object,
  and what it has emitted and the event loop has not delivered yet (\<open>None\<close> as long as
  the body of \<^verbatim>\<open>run\<close> has not been executed).
\<close>

record active_run =
  run_thread :: ArchiveWriterThread
  emitted :: "notification list option"

record world =
  window :: MainWindow
  store :: heap
  disk :: filesystem
  runs :: "active_run list"

text \<open>
  What can happen: the text of the line edit changes; the selection changes, to a state
  in which selected rows, if any, are a selection; the table
  model reports a reset or a change of data, after its side (the widgets module) has put
  the collection into some state; a click on one of the buttons, with the answer of the
  file dialog; a started thread executes \<^verbatim>\<open>run\<close>; the event loop delivers the oldest
  undelivered notification of a thread to its slot.
\<close>

datatype event =
    TextChanged string
  | SelectionChanged bool "nat list"
  | ModelChanged "Image list"
  | RemoveClicked
  | CreateClicked string
  | ThreadRuns nat
  | Deliver nat

text \<open>
  A disabled button sends no \<^verbatim>\<open>clicked\<close>; a thread executes \<^verbatim>\<open>run\<close> once; a notification
  is delivered when there is one; where rows are selected there is a selection.
\<close>

fun enabled :: "event \<Rightarrow> world \<Rightarrow> bool" where
  "enabled (TextChanged text) s = True"
| "enabled (SelectionChanged has rows) s = (has \<or> rows = [])"
| "enabled (ModelChanged imgs) s = True"
| "enabled RemoveClicked s = remove_selected_rows_button_enabled (window s)"
| "enabled (CreateClicked archive_file) s = create_archive_button_enabled (window s)"
| "enabled (ThreadRuns k) s = (k < length (runs s) \<and> emitted (runs s ! k) = None)"
| "enabled (Deliver k) s =
     (k < length (runs s) \<and>
      (case emitted (runs s ! k) of Some (n # ns) \<Rightarrow> True | _ \<Rightarrow> False))"

text \<open>
  What an event does.  An exception that leaves a slot ends the slot; what the slot had
  done so far stays.  The body of \<^verbatim>\<open>run\<close> is taken as one step.  A run whose last
  notification has been delivered is over.
\<close>

fun fire :: "(string \<Rightarrow> exn + Pattern) \<Rightarrow> event \<Rightarrow> world \<Rightarrow> world" where
  "fire re_compile (TextChanged text) s =
     (case on_regex_line_edit_text_changed re_compile text (window s) of
        Inr w' \<Rightarrow> s\<lparr>window := w'\<rparr>
      | Inl e \<Rightarrow> s)"
| "fire re_compile (SelectionChanged has rows) s =
     s\<lparr>window := update_button_states (store s)
                    ((window s)\<lparr>has_selection := has, selected_rows := rows\<rparr>)\<rparr>"
| "fire re_compile (ModelChanged imgs) s =
     (let h' = (store s)(images (window s) := imgs)
      in s\<lparr>window := update_button_states h' (window s), store := h'\<rparr>)"
| "fire re_compile RemoveClicked s =
     s\<lparr>store := fst (on_remove_selected_rows_button_clicked (window s) (store s))\<rparr>"
| "fire re_compile (CreateClicked archive_file) s =
     (case on_create_archive_button_clicked archive_file (store s) (window s) of
        (w', None) \<Rightarrow> s\<lparr>window := w'\<rparr>
      | (w', Some t) \<Rightarrow>
          s\<lparr>window := w', runs := runs s @ [\<lparr>run_thread = t, emitted = None\<rparr>]\<rparr>)"
| "fire re_compile (ThreadRuns k) s =
     (case run (run_thread (runs s ! k)) (store s) (disk s) of
        (ns, fs') \<Rightarrow>
          s\<lparr>disk := fs', runs := (runs s)[k := (runs s ! k)\<lparr>emitted := Some ns\<rparr>]\<rparr>)"
| "fire re_compile (Deliver k) s =
     (case emitted (runs s ! k) of
        Some (n # ns) \<Rightarrow>
          s\<lparr>window := deliver n (store s) (window s),
            runs := (if ns = [] then take k (runs s) @ drop (Suc k) (runs s)
                     else (runs s)[k := (runs s ! k)\<lparr>emitted := Some ns\<rparr>])\<rparr>
      | _ \<Rightarrow> s)"

definition step :: "(string \<Rightarrow> exn + Pattern) \<Rightarrow> world \<Rightarrow> event \<Rightarrow> world \<Rightarrow> bool" where
  "step re_compile s ev s' = (enabled ev s \<and> s' = fire re_compile ev s)"

definition initial :: "addr \<Rightarrow> heap \<Rightarrow> filesystem \<Rightarrow> world" where
  "initial a h fs =
     (let (w, h') = MainWindow_init a h
      in \<lparr>window = w, store = h', disk = fs, runs = []\<rparr>)"

inductive reachable :: "(string \<Rightarrow> exn + Pattern) \<Rightarrow> world \<Rightarrow> bool"
  for re_compile :: "string \<Rightarrow> exn + Pattern"
where
  reachable_initial: "reachable re_compile (initial a h fs)"
| reachable_step: "reachable re_compile s \<Longrightarrow> step re_compile s ev s' \<Longrightarrow> reachable re_compile s'"

text \<open>An event by which the table side puts the collection into another state than the
  one it is in.\<close>

fun edits :: "world \<Rightarrow> event \<Rightarrow> bool" where
  "edits s (ModelChanged imgs) = (imgs \<noteq> store s (images (window s)))"
| "edits s ev = False"

text \<open>
  \<open>in_flight re_compile s s'\<close>: in \<open>s\<close> a click on the create button starts a run, and
  \<open>s'\<close> is a state that follows while that run is under way, or the state in which it has
  just ended; on the way the table side has not edited the collection.
\<close>

inductive in_flight :: "(string \<Rightarrow> exn + Pattern) \<Rightarrow> world \<Rightarrow> world \<Rightarrow> bool"
  for re_compile :: "string \<Rightarrow> exn + Pattern"
where
  in_flight_start:
    "step re_compile s (CreateClicked archive_file) s' \<Longrightarrow> thread (window s') \<noteq> None
     \<Longrightarrow> in_flight re_compile s s'"
| in_flight_step:
    "in_flight re_compile s s' \<Longrightarrow> thread (window s') \<noteq> None
     \<Longrightarrow> step re_compile s' ev s'' \<Longrightarrow> \<not> edits s' ev
     \<Longrightarrow> in_flight re_compile s s''"

section \<open>What holds in every state of the window\<close>

text \<open>What a thread emits in all: steps, then one terminal notification.\<close>

definition well_formed :: "notification list \<Rightarrow> bool" where
  "well_formed ns = (ns \<noteq> [] \<and> terminal (last ns) \<and> list_all (\<lambda>n. \<not> terminal n) (butlast ns))"

definition invariant :: "world \<Rightarrow> bool" where
  "invariant s =
     (length (runs s) \<le> 1
      \<and> ((thread (window s) = None) = (runs s = []))
      \<and> list_all (\<lambda>r. thread (window s) = Some (run_thread r)
                      \<and> thread_images (run_thread r) = images (window s)
                      \<and> (case emitted r of None \<Rightarrow> True | Some ns \<Rightarrow> well_formed ns))
           (runs s)
      \<and> (create_archive_button_enabled (window s) \<longrightarrow>
           thread (window s) = None
           \<and> distinct (map posix_path (store s (images (window s)))))
      \<and> (remove_selected_rows_button_enabled (window s) \<longrightarrow> thread (window s) = None))"

section \<open>An example\<close>

text \<open>The two images of the example in the spec, the files they name, and a session in
  which they are put into the table and exported.\<close>

definition photo_a :: Image where
  "photo_a = \<lparr>path = ''photo_a.jpg'', posix_path = ''trip/a.jpg''\<rparr>"

definition photo_b :: Image where
  "photo_b = \<lparr>path = ''photo_b.jpg'', posix_path = ''trip/b.jpg''\<rparr>"

definition photo_c :: Image where
  "photo_c = \<lparr>path = ''photo_c.jpg'', posix_path = ''trip/c.jpg''\<rparr>"

definition example_disk :: filesystem where
  "example_disk =
     \<lparr>files = [''photo_a.jpg'' \<mapsto> ''AAA'', ''photo_b.jpg'' \<mapsto> ''BB''],
      writable = (\<lambda>p. True),
      archives = Map.empty\<rparr>"

definition example_heap :: heap where
  "example_heap = (\<lambda>a. [])(0 := [photo_a, photo_b])"

definition example_thread :: ArchiveWriterThread where
  "example_thread = ArchiveWriterThread_init ''out.tar.gz'' 0"

definition example_compile :: "string \<Rightarrow> exn + Pattern" where
  "example_compile text = Inr (Pattern text)"

text \<open>The session: the table side puts the two images into the collection; the create
  button is clicked and the dialog answers with a file name; the thread runs; its three
  notifications are delivered.\<close>

definition example_initial :: world where
  "example_initial = initial 0 (\<lambda>a. []) example_disk"

definition example_loaded :: world where
  "example_loaded = fire example_compile (ModelChanged [photo_a, photo_b]) example_initial"

definition example_started :: world where
  "example_started = fire example_compile (CreateClicked ''out.tar.gz'') example_loaded"

definition example_ran :: world where
  "example_ran = fire example_compile (ThreadRuns 0) example_started"

definition example_delivered1 :: world where
  "example_delivered1 = fire example_compile (Deliver 0) example_ran"

definition example_delivered2 :: world where
  "example_delivered2 = fire example_compile (Deliver 0) example_delivered1"

definition example_finished :: world where
  "example_finished = fire example_compile (Deliver 0) example_delivered2"

section \<open>The loop of the thread and the writer\<close>

lemma exhaust_resume:
  "exhaust g fs =
     (case resume g fs of
        (Yield x g', fs') \<Rightarrow> (case exhaust g' fs' of (xs, rest) \<Rightarrow> (x # xs, rest))
      | (Return, fs') \<Rightarrow> ([], None, fs')
      | (Raise e, fs') \<Rightarrow> ([], Some e, fs'))"
  by (cases g) simp

lemma for_loop_eq:
  "for_loop i g fs out
     = (out @ map (\<lambda>(i, img). Step i img) (enumerate i (yields g fs)), raised g fs, leaves g fs)"
proof (induction i g fs out rule: for_loop.induct)
  case (1 i body fs emitted)
  obtain r fs' where b: "body fs = (r, fs')" by (cases "body fs")
  show ?case
  proof (cases r)
    case (Yield img g)
    then show ?thesis
      using b "1.IH"[OF b[symmetric] Yield]
      by (simp add: yields_def raised_def leaves_def case_prod_beta)
  next
    case Return
    then show ?thesis using b by (simp add: yields_def raised_def leaves_def)
  next
    case (Raise e)
    then show ?thesis using b by (simp add: yields_def raised_def leaves_def)
  qed
qed

lemma run_body_eq:
  "run_body g fs =
     (map (\<lambda>(i, img). Step i img) (enumerate 0 (yields g fs))
        @ [case raised g fs of None \<Rightarrow> Completed | Some e \<Rightarrow> Error e],
      leaves g fs)"
  by (simp add: run_body_def for_loop_eq split: option.split)

lemma run_eq:
  "run self h fs
     = run_body (write_archive (thread_archive_file self) (h (thread_images self))) fs"
  by (simp add: run_def)

lemma files_put_archive:
  "files fs p \<noteq> None \<Longrightarrow> files (put_archive dest ms fs) p \<noteq> None"
  "p \<noteq> dest \<Longrightarrow> files (put_archive dest ms fs) p = files fs p"
  "archives (put_archive dest ms fs) dest = Some ms"
  "writable (put_archive dest ms fs) = writable fs"
  by (simp_all add: put_archive_def)

lemma add_members_Nil: "exhaust (add_members dest ms []) fs = ([], None, fs)"
  by simp

lemma add_members_unreadable:
  "files fs (path img) = None
   \<Longrightarrow> exhaust (add_members dest ms (img # imgs)) fs = ([], Some (OSError (path img)), fs)"
  by simp

lemma add_members_readable:
  "files fs (path img) = Some content \<Longrightarrow>
   exhaust (add_members dest ms (img # imgs)) fs =
     (img # yields (add_members dest (ms @ [(posix_path img, content)]) imgs)
              (put_archive dest (ms @ [(posix_path img, content)]) fs),
      raised (add_members dest (ms @ [(posix_path img, content)]) imgs)
              (put_archive dest (ms @ [(posix_path img, content)]) fs),
      leaves (add_members dest (ms @ [(posix_path img, content)]) imgs)
              (put_archive dest (ms @ [(posix_path img, content)]) fs))"
  by (simp add: yields_def raised_def leaves_def case_prod_beta)

lemma write_archive_unwritable:
  "\<not> writable fs archive_file
   \<Longrightarrow> exhaust (write_archive archive_file imgs) fs = ([], Some (OSError archive_file), fs)"
  by (simp add: write_archive_def)

lemma write_archive_writable:
  "writable fs archive_file
   \<Longrightarrow> exhaust (write_archive archive_file imgs) fs
       = exhaust (add_members archive_file [] imgs) (put_archive archive_file [] fs)"
  by (simp add: write_archive_def exhaust_resume[of "add_members archive_file [] imgs"])

lemma add_members_yields_all:
  "raised (add_members dest ms imgs) fs = None \<Longrightarrow> yields (add_members dest ms imgs) fs = imgs"
proof (induction imgs arbitrary: ms fs)
  case Nil
  show ?case by (simp add: yields_def)
next
  case (Cons img imgs)
  show ?case
  proof (cases "files fs (path img)")
    case None
    then show ?thesis using Cons.prems by (simp add: raised_def add_members_unreadable del: add_members.simps)
  next
    case (Some content)
    have "raised (add_members dest (ms @ [(posix_path img, content)]) imgs)
            (put_archive dest (ms @ [(posix_path img, content)]) fs) = None"
      using Cons.prems by (simp add: raised_def[of "add_members dest ms (img # imgs)"]
          add_members_readable[OF Some] del: add_members.simps)
    from Cons.IH[OF this] show ?thesis
      by (simp add: yields_def[of "add_members dest ms (img # imgs)"]
          add_members_readable[OF Some] del: add_members.simps)
  qed
qed

lemma add_members_no_raise:
  "\<forall>img \<in> set imgs. files fs (path img) \<noteq> None \<Longrightarrow> raised (add_members dest ms imgs) fs = None"
proof (induction imgs arbitrary: ms fs)
  case Nil
  show ?case by (simp add: raised_def)
next
  case (Cons img imgs)
  then obtain content where c: "files fs (path img) = Some content" by auto
  have "\<forall>i \<in> set imgs. files (put_archive dest (ms @ [(posix_path img, content)]) fs) (path i) \<noteq> None"
    using Cons.prems by (simp add: files_put_archive(1))
  from Cons.IH[OF this] show ?case
    by (simp add: raised_def[of "add_members dest ms (img # imgs)"]
        add_members_readable[OF c] del: add_members.simps)
qed


lemma steps_of_enumerate:
  "map (\<lambda>(i, img). Step i img) (enumerate 0 imgs) = map (\<lambda>i. Step i (imgs ! i)) [0..<length imgs]"
  by (rule nth_equalityI) (simp_all add: nth_enumerate_eq)

lemma write_archive_yields_all:
  "raised (write_archive archive_file imgs) fs = None
   \<Longrightarrow> yields (write_archive archive_file imgs) fs = imgs"
proof (cases "writable fs archive_file")
  case True
  assume "raised (write_archive archive_file imgs) fs = None"
  then show ?thesis
    using add_members_yields_all[of archive_file "[]" imgs "put_archive archive_file [] fs"]
    by (simp add: raised_def yields_def write_archive_writable[OF True])
next
  case False
  assume "raised (write_archive archive_file imgs) fs = None"
  then show ?thesis by (simp add: raised_def write_archive_unwritable[OF False])
qed

lemma write_archive_no_raise:
  assumes "\<forall>img \<in> set imgs. files fs (path img) \<noteq> None" "writable fs archive_file"
  shows "raised (write_archive archive_file imgs) fs = None"
proof -
  have "\<forall>img \<in> set imgs. files (put_archive archive_file [] fs) (path img) \<noteq> None"
    using assms(1) by (simp add: files_put_archive(1))
  from add_members_no_raise[OF this] show ?thesis
    by (simp add: raised_def write_archive_writable[OF assms(2)])
qed


lemma example_run:
  "fst (run example_thread example_heap example_disk) = [Step 0 photo_a, Step 1 photo_b, Completed]"
  by (simp add: run_def write_archive_def run_body_def example_thread_def example_heap_def
        example_disk_def ArchiveWriterThread_init_def photo_a_def photo_b_def put_archive_def)

section \<open>Removing rows\<close>

lemma nths_cong_below:
  "(\<And>i. i < length xs \<Longrightarrow> (i \<in> A) = (i \<in> B)) \<Longrightarrow> nths xs A = nths xs B"
  unfolding nths_def
  by (rule arg_cong[where f="map fst"], rule filter_cong) (auto simp: in_set_zip)

lemma nths_remove_index:
  assumes "row < length xs" "\<forall>r \<in> S. r < row"
  shows "nths (take row xs @ drop (Suc row) xs) {i. i \<notin> S} = nths xs {i. i \<notin> insert row S}"
proof -
  have l: "min (length xs) row = row" using assms(1) by simp
  have a: "nths (take row xs) {i. i \<notin> S} = nths (take row xs) {i. i \<notin> insert row S}"
    by (rule nths_cong_below) (use l in auto)
  have u: "{j. j + row \<notin> S} = UNIV" "{j. Suc (j + row) \<noteq> row \<and> Suc (j + row) \<notin> S} = UNIV"
    "{j. Suc (j + row) \<notin> S} = UNIV"
    using assms(2) by fastforce+
  have lhs: "nths (take row xs @ drop (Suc row) xs) {i. i \<notin> S}
             = nths (take row xs) {i. i \<notin> S} @ drop (Suc row) xs"
    by (simp add: nths_append l u nths_all)
  have "xs = take row xs @ (xs ! row # drop (Suc row) xs)"
    using assms(1) by (simp add: id_take_nth_drop)
  then have "nths xs {i. i \<notin> insert row S}
             = nths (take row xs @ (xs ! row # drop (Suc row) xs)) {i. i \<notin> insert row S}"
    by simp
  also have "\<dots> = nths (take row xs) {i. i \<notin> insert row S} @ drop (Suc row) xs"
    by (simp add: nths_append nths_Cons l u nths_all)
  finally show ?thesis using lhs a by simp
qed

lemma pop_each_descending:
  "sorted_wrt (>) rows \<Longrightarrow> \<forall>r \<in> set rows. r < length (h a)
   \<Longrightarrow> pop_each a rows h = (h(a := nths (h a) {i. i \<notin> set rows}), None)"
proof (induction rows arbitrary: h)
  case Nil
  have "nths (h a) {i. i \<notin> set []} = h a" by (simp add: nths_all)
  then show ?case by simp
next
  case (Cons row rows)
  let ?h = "h(a := take row (h a) @ drop (Suc row) (h a))"
  have row: "row < length (h a)" and below: "\<forall>r \<in> set rows. r < row"
    using Cons.prems by auto
  have p: "pop a row h = Inr ?h" using row by (simp add: pop_def)
  have "\<forall>r \<in> set rows. r < length (?h a)" using row below by auto
  moreover have "sorted_wrt (>) rows" using Cons.prems(1) by simp
  ultimately have "pop_each a rows ?h = (?h(a := nths (?h a) {i. i \<notin> set rows}), None)"
    by (rule Cons.IH[rotated])
  moreover have "nths (?h a) {i. i \<notin> set rows} = nths (h a) {i. i \<notin> set (row # rows)}"
    using nths_remove_index[OF row below] by simp
  moreover have "?h(a := nths (h a) {i. i \<notin> set (row # rows)}) = h(a := nths (h a) {i. i \<notin> set (row # rows)})"
    by (rule fun_upd_upd)
  ultimately have "pop_each a rows ?h = (h(a := nths (h a) {i. i \<notin> set (row # rows)}), None)"
    by (simp only:)
  then show ?case by (simp only: pop_each.simps p sum.case)
qed

lemma sorted_reverse_descending: "distinct rows \<Longrightarrow> sorted_wrt (>) (sorted_reverse rows)"
  unfolding sorted_reverse_def
  by (simp add: sorted_wrt_rev strict_sorted_iff)

lemma set_sorted_reverse: "set (sorted_reverse rows) = set rows"
  by (simp add: sorted_reverse_def)

section \<open>The invariant of the window\<close>

lemma well_formed_run_body: "well_formed (fst (run_body g fs))"
  by (simp add: run_body_eq well_formed_def list_all_iff split: option.split) auto

lemma well_formed_run: "well_formed (fst (run t h fs))"
  by (simp add: run_def well_formed_run_body)

lemma well_formed_tail:
  "well_formed (n # ns) \<Longrightarrow> ns \<noteq> [] \<Longrightarrow> well_formed ns \<and> \<not> terminal n"
  by (simp add: well_formed_def)

lemma well_formed_single: "well_formed [n] \<Longrightarrow> terminal n"
  by (simp add: well_formed_def)

lemma pop_distinct:
  assumes "pop a i h = Inr h'" "distinct (map f (h a))"
  shows "distinct (map f (h' a))"
proof -
  have i: "i < length (h a)" and h': "h' = h(a := take i (h a) @ drop (Suc i) (h a))"
    using assms(1) by (auto simp: pop_def split: if_splits)
  have "map f (h a) = map f (take i (h a)) @ f (h a ! i) # map f (drop (Suc i) (h a))"
    using id_take_nth_drop[OF i] by (metis list.simps(9) map_append)
  then have "distinct (map f (take i (h a)) @ f (h a ! i) # map f (drop (Suc i) (h a)))"
    using assms(2) by simp
  then have "distinct (map f (take i (h a)) @ map f (drop (Suc i) (h a)))"
    by auto
  then show ?thesis by (simp add: h')
qed

lemma pop_each_distinct:
  "distinct (map f (h a)) \<Longrightarrow> distinct (map f (fst (pop_each a rows h) a))"
proof (induction rows arbitrary: h)
  case Nil
  then show ?case by simp
next
  case (Cons row rows)
  show ?case
  proof (cases "pop a row h")
    case (Inl e)
    then show ?thesis using Cons.prems by simp
  next
    case (Inr h')
    then show ?thesis using Cons.IH[of h', OF pop_distinct[OF Inr Cons.prems]] by simp
  qed
qed

lemma card_paths_distinct:
  "(card (set (map f xs)) = length xs) = distinct (map f xs)"
proof
  assume "card (set (map f xs)) = length xs"
  then have "card (set (map f xs)) = length (map f xs)" by simp
  then show "distinct (map f xs)" by (rule card_distinct)
next
  assume "distinct (map f xs)"
  then have "card (set (map f xs)) = length (map f xs)" by (rule distinct_card)
  then show "card (set (map f xs)) = length xs" by simp
qed

lemma update_button_states_sel:
  "thread (update_button_states h w) = thread w"
  "images (update_button_states h w) = images w"
  "posix_path_pattern (update_button_states h w) = posix_path_pattern w"
  "selected_rows (update_button_states h w) = selected_rows w"
  "remove_selected_rows_button_enabled (update_button_states h w) =
     (thread w = None \<and> has_selection w)"
  "create_archive_button_enabled (update_button_states h w) =
     (thread w = None \<and> h (images w) \<noteq> [] \<and> distinct (map posix_path (h (images w))))"
  by (simp_all add: update_button_states_def card_paths_distinct del: set_map)

lemma deliver_step_sel:
  "\<not> terminal n \<Longrightarrow> thread (deliver n h w) = thread w"
  "\<not> terminal n \<Longrightarrow> images (deliver n h w) = images w"
  "\<not> terminal n \<Longrightarrow> create_archive_button_enabled (deliver n h w) = create_archive_button_enabled w"
  "\<not> terminal n \<Longrightarrow> remove_selected_rows_button_enabled (deliver n h w) = remove_selected_rows_button_enabled w"
  by (cases n; simp add: on_thread_step_def)+

lemma deliver_terminal_sel:
  "terminal n \<Longrightarrow> thread (deliver n h w) = None"
  "images (deliver n h w) = images w"
  "terminal n \<Longrightarrow> create_archive_button_enabled (deliver n h w) =
     (h (images w) \<noteq> [] \<and> distinct (map posix_path (h (images w))))"
  by (cases n; simp add: on_thread_step_def on_thread_completed_def on_thread_error_def
       update_button_states_sel)+

lemma create_clicked_cancelled:
  "on_create_archive_button_clicked [] h w = (w, None)"
  by (simp add: on_create_archive_button_clicked_def)

lemma create_clicked_started:
  assumes "archive_file \<noteq> []"
  shows "snd (on_create_archive_button_clicked archive_file h w)
           = Some (ArchiveWriterThread_init archive_file (images w))"
    and "thread (fst (on_create_archive_button_clicked archive_file h w))
           = Some (ArchiveWriterThread_init archive_file (images w))"
    and "images (fst (on_create_archive_button_clicked archive_file h w)) = images w"
    and "\<not> create_archive_button_enabled (fst (on_create_archive_button_clicked archive_file h w))"
    and "\<not> remove_selected_rows_button_enabled (fst (on_create_archive_button_clicked archive_file h w))"
  using assms
  by (simp_all add: on_create_archive_button_clicked_def Let_def update_button_states_sel)

lemma invariant_initial: "invariant (initial a h fs)"
  by (simp add: initial_def MainWindow_init_def Let_def invariant_def update_button_states_sel)

lemma text_changed_frame:
  assumes "on_regex_line_edit_text_changed rc text w = Inr w'"
  shows "thread w' = thread w" "images w' = images w" "selected_rows w' = selected_rows w"
    "remove_selected_rows_button_enabled w' = remove_selected_rows_button_enabled w"
    "create_archive_button_enabled w' = create_archive_button_enabled w"
  using assms
  by (auto simp: on_regex_line_edit_text_changed_def set_posix_path_pattern_def
           split: if_splits sum.splits)

lemma invariant_runs:
  assumes "invariant s"
  shows "runs s = [] \<or> (\<exists>r. runs s = [r])"
  using assms by (cases "runs s"; cases "tl (runs s)") (auto simp: invariant_def)

lemma invariant_text_changed:
  "invariant s \<Longrightarrow> invariant (fire rc (TextChanged text) s)"
proof (cases "on_regex_line_edit_text_changed rc text (window s)")
  case (Inl e)
  assume "invariant s"
  then show ?thesis using Inl by simp
next
  case (Inr w')
  assume "invariant s"
  then show ?thesis
    using Inr by (simp add: invariant_def text_changed_frame[OF Inr])
qed

lemma invariant_selection_changed:
  "invariant s \<Longrightarrow> invariant (fire rc (SelectionChanged has rows) s)"
  by (auto simp: invariant_def update_button_states_sel)

lemma invariant_model_changed:
  "invariant s \<Longrightarrow> invariant (fire rc (ModelChanged imgs) s)"
  by (auto simp: invariant_def update_button_states_sel Let_def)

lemma invariant_remove_clicked:
  "invariant s \<Longrightarrow> invariant (fire rc RemoveClicked s)"
  by (auto simp: invariant_def on_remove_selected_rows_button_clicked_def pop_each_distinct)

lemma invariant_create_clicked:
  assumes "invariant s" "enabled (CreateClicked archive_file) s"
  shows "invariant (fire rc (CreateClicked archive_file) s)"
proof (cases "archive_file = []")
  case True
  then show ?thesis using assms(1) by (simp add: create_clicked_cancelled)
next
  case False
  have none: "thread (window s) = None" "runs s = []"
    using assms by (auto simp: invariant_def)
  obtain w' where w': "on_create_archive_button_clicked archive_file (store s) (window s)
      = (w', Some (ArchiveWriterThread_init archive_file (images (window s))))"
    using create_clicked_started(1)[OF False] by (metis prod.collapse)
  have "thread w' = Some (ArchiveWriterThread_init archive_file (images (window s)))"
    "images w' = images (window s)" "\<not> create_archive_button_enabled w'"
    "\<not> remove_selected_rows_button_enabled w'"
    using create_clicked_started(2-5)[OF False, of "store s" "window s"] w' by simp_all
  then show ?thesis
    using none w' by (simp add: invariant_def ArchiveWriterThread_init_def)
qed

lemma invariant_thread_runs:
  assumes "invariant s" "enabled (ThreadRuns k) s"
  shows "invariant (fire rc (ThreadRuns k) s)"
proof -
  obtain r where r: "runs s = [r]" "k = 0"
    using invariant_runs[OF assms(1)] assms(2) by auto
  obtain ns fs' where run: "run (run_thread r) (store s) (disk s) = (ns, fs')"
    by (cases "run (run_thread r) (store s) (disk s)")
  have "well_formed ns" using well_formed_run[of "run_thread r" "store s" "disk s"] run by simp
  then show ?thesis using assms(1) r run by (auto simp: invariant_def)
qed

lemma invariant_deliver:
  assumes "invariant s" "enabled (Deliver k) s"
  shows "invariant (fire rc (Deliver k) s)"
proof -
  obtain r where r: "runs s = [r]" "k = 0"
    using invariant_runs[OF assms(1)] assms(2) by auto
  obtain n ns where e: "emitted r = Some (n # ns)"
    using assms(2) r by (auto split: option.splits list.splits)
  have wf: "well_formed (n # ns)" using assms(1) r e by (simp add: invariant_def)
  show ?thesis
  proof (cases "ns = []")
    case True
    then have "terminal n" using wf well_formed_single by simp
    then show ?thesis
      using assms(1) r e True by (auto simp: invariant_def deliver_terminal_sel)
  next
    case False
    then have "well_formed ns" "\<not> terminal n" using well_formed_tail[OF wf] by simp_all
    then show ?thesis
      using assms(1) r e False by (auto simp: invariant_def deliver_step_sel)
  qed
qed

lemma invariant_fire:
  "invariant s \<Longrightarrow> enabled ev s \<Longrightarrow> invariant (fire rc ev s)"
  by (cases ev)
     (simp_all only: invariant_text_changed invariant_selection_changed invariant_model_changed
        invariant_remove_clicked invariant_create_clicked invariant_thread_runs invariant_deliver)

lemma reachable_invariant: "reachable rc s \<Longrightarrow> invariant s"
  by (induction rule: reachable.induct) (auto simp: invariant_initial step_def invariant_fire)

section \<open>The example session\<close>

lemma reachable_fire:
  "reachable rc s \<Longrightarrow> enabled ev s \<Longrightarrow> reachable rc (fire rc ev s)"
  by (rule reachable_step[where ev = ev]) (simp_all add: step_def)

lemma example_initial:
  "window example_initial =
     \<lparr>thread = None, images = 0, posix_path_pattern = None,
      regex_line_edit_style_sheet = [], has_selection = False, selected_rows = [],
      remove_selected_rows_button_enabled = False,
      create_archive_button_enabled = False,
      status_bar_message = Ready, progress_bar_hidden = True,
      progress_bar_maximum = 100, progress_bar_value = - 1\<rparr>"
  "store example_initial = (\<lambda>a. [])(0 := [])"
  "disk example_initial = example_disk"
  "runs example_initial = []"
  by (simp_all add: example_initial_def initial_def MainWindow_init_def Let_def
        update_button_states_def)

lemma example_loaded:
  "window example_loaded =
     \<lparr>thread = None, images = 0, posix_path_pattern = None,
      regex_line_edit_style_sheet = [], has_selection = False, selected_rows = [],
      remove_selected_rows_button_enabled = False,
      create_archive_button_enabled = True,
      status_bar_message = Ready, progress_bar_hidden = True,
      progress_bar_maximum = 100, progress_bar_value = - 1\<rparr>"
  "store example_loaded = example_heap"
  "disk example_loaded = example_disk"
  "runs example_loaded = []"
  by (simp_all add: example_loaded_def example_initial Let_def example_heap_def
        update_button_states_def photo_a_def photo_b_def)

lemma example_started:
  "window example_started =
     \<lparr>thread = Some example_thread, images = 0, posix_path_pattern = None,
      regex_line_edit_style_sheet = [], has_selection = False, selected_rows = [],
      remove_selected_rows_button_enabled = False,
      create_archive_button_enabled = False,
      status_bar_message = Creating_archive, progress_bar_hidden = False,
      progress_bar_maximum = 2, progress_bar_value = 0\<rparr>"
  "store example_started = example_heap"
  "disk example_started = example_disk"
  "runs example_started = [\<lparr>run_thread = example_thread, emitted = None\<rparr>]"
  by (simp_all add: example_started_def example_loaded on_create_archive_button_clicked_def
        Let_def update_button_states_def example_thread_def example_heap_def)

lemma example_ran:
  "window example_ran = window example_started"
  "store example_ran = example_heap"
  "disk example_ran = snd (run example_thread example_heap example_disk)"
  "runs example_ran
     = [\<lparr>run_thread = example_thread,
         emitted = Some [Step 0 photo_a, Step 1 photo_b, Completed]\<rparr>]"
  using example_run
  by (simp_all add: example_ran_def example_started case_prod_beta)

lemma example_delivered1:
  "window example_delivered1 = (window example_started)\<lparr>progress_bar_value := 1\<rparr>"
  "store example_delivered1 = example_heap"
  "disk example_delivered1 = disk example_ran"
  "runs example_delivered1
     = [\<lparr>run_thread = example_thread, emitted = Some [Step 1 photo_b, Completed]\<rparr>]"
  by (simp_all add: example_delivered1_def example_ran on_thread_step_def)

lemma example_delivered2:
  "window example_delivered2 = (window example_started)\<lparr>progress_bar_value := 2\<rparr>"
  "store example_delivered2 = example_heap"
  "disk example_delivered2 = disk example_ran"
  "runs example_delivered2 = [\<lparr>run_thread = example_thread, emitted = Some [Completed]\<rparr>]"
  by (simp_all add: example_delivered2_def example_delivered1 on_thread_step_def)

lemma example_finished:
  "thread (window example_finished) = None"
  "create_archive_button_enabled (window example_finished)"
  "status_bar_message (window example_finished) = Archive_created"
  "images (window example_finished) = 0"
  "store example_finished = example_heap"
  "disk example_finished = disk example_ran"
  "runs example_finished = []"
  by (simp_all add: example_finished_def example_delivered2 on_thread_completed_def
        example_started update_button_states_def example_heap_def photo_a_def photo_b_def)

lemma example_reachable:
  "reachable example_compile example_initial"
  "reachable example_compile example_loaded"
  "reachable example_compile example_started"
  "reachable example_compile example_ran"
  "reachable example_compile example_delivered1"
  "reachable example_compile example_delivered2"
  "reachable example_compile example_finished"
proof -
  show 0: "reachable example_compile example_initial"
    unfolding example_initial_def by (rule reachable_initial)
  show 1: "reachable example_compile example_loaded"
    unfolding example_loaded_def by (rule reachable_fire[OF 0]) simp
  show 2: "reachable example_compile example_started"
    unfolding example_started_def by (rule reachable_fire[OF 1]) (simp add: example_loaded)
  show 3: "reachable example_compile example_ran"
    unfolding example_ran_def by (rule reachable_fire[OF 2]) (simp add: example_started)
  show 4: "reachable example_compile example_delivered1"
    unfolding example_delivered1_def by (rule reachable_fire[OF 3]) (simp add: example_ran)
  show 5: "reachable example_compile example_delivered2"
    unfolding example_delivered2_def by (rule reachable_fire[OF 4]) (simp add: example_delivered1)
  show "reachable example_compile example_finished"
    unfolding example_finished_def by (rule reachable_fire[OF 5]) (simp add: example_delivered2)
qed

lemma thread_after_fire:
  assumes "invariant s" "enabled ev s" "thread (window s) \<noteq> None"
  shows "(thread (window (fire rc ev s)) = None)
          = (\<exists>k n. ev = Deliver k \<and> emitted (runs s ! k) = Some [n] \<and> terminal n)"
proof (cases ev)
  case (TextChanged tx)
  show ?thesis
  proof (cases "on_regex_line_edit_text_changed rc tx (window s)")
    case (Inl e)
    then show ?thesis using assms(3) TextChanged by simp
  next
    case (Inr w')
    then show ?thesis using assms(3) TextChanged text_changed_frame(1)[OF Inr] by simp
  qed
next
  case (SelectionChanged has rows)
  then show ?thesis using assms(3) by (simp add: update_button_states_sel)
next
  case (ModelChanged imgs)
  then show ?thesis using assms(3) by (simp add: update_button_states_sel Let_def)
next
  case RemoveClicked
  then show ?thesis using assms(3) by simp
next
  case (CreateClicked archive_file)
  then show ?thesis using assms by (simp add: invariant_def)
next
  case (ThreadRuns k)
  then show ?thesis using assms(3) by (simp add: case_prod_beta)
next
  case (Deliver k)
  obtain r where r: "runs s = [r]" "k = 0"
    using invariant_runs[OF assms(1)] assms(2) Deliver by auto
  obtain n ns where e: "emitted r = Some (n # ns)"
    using assms(2) r Deliver by (auto split: option.splits list.splits)
  have wf: "well_formed (n # ns)" using assms(1) r e by (simp add: invariant_def)
  show ?thesis
  proof (cases "ns = []")
    case True
    then have "terminal n" using wf well_formed_single by simp
    then show ?thesis using Deliver r e True by (simp add: deliver_terminal_sel)
  next
    case False
    then have "\<not> terminal n" using well_formed_tail[OF wf] by simp
    then show ?thesis using Deliver r e False assms(3) by (simp add: deliver_step_sel)
  qed
qed

lemma store_after_fire:
  assumes "invariant s" "enabled ev s" "\<not> edits s ev"
    and "thread (window s) \<noteq> None \<or> (\<exists>archive_file. ev = CreateClicked archive_file)"
  shows "store (fire rc ev s) = store s \<and> images (window (fire rc ev s)) = images (window s)"
proof (cases ev)
  case (TextChanged tx)
  show ?thesis
  proof (cases "on_regex_line_edit_text_changed rc tx (window s)")
    case (Inl e)
    then show ?thesis using TextChanged by simp
  next
    case (Inr w')
    then show ?thesis using TextChanged text_changed_frame(2)[OF Inr] by simp
  qed
next
  case (SelectionChanged has rows)
  then show ?thesis by (simp add: update_button_states_sel)
next
  case (ModelChanged imgs)
  then show ?thesis using assms(3) by (simp add: update_button_states_sel Let_def)
next
  case RemoveClicked
  then show ?thesis using assms by (simp add: invariant_def)
next
  case (CreateClicked archive_file)
  show ?thesis
  proof (cases "archive_file = []")
    case True
    then show ?thesis using CreateClicked by (simp add: create_clicked_cancelled)
  next
    case False
    then show ?thesis
      using CreateClicked create_clicked_started(1,3)[OF False, of "store s" "window s"]
      by (cases "on_create_archive_button_clicked archive_file (store s) (window s)") auto
  qed
next
  case (ThreadRuns k)
  then show ?thesis by (simp add: case_prod_beta)
next
  case (Deliver k)
  then show ?thesis
    by (simp add: deliver_terminal_sel(2) split: option.split list.split)
qed

lemma in_flight_frame:
  assumes "reachable rc s" "in_flight rc s s'"
  shows "invariant s' \<and> store s' = store s \<and> images (window s') = images (window s)"
  using assms(2,1)
proof (induction rule: in_flight.induct)
  case (in_flight_start s archive_file s')
  have inv: "invariant s" using in_flight_start.prems by (rule reachable_invariant)
  have en: "enabled (CreateClicked archive_file) s" and s': "s' = fire rc (CreateClicked archive_file) s"
    using in_flight_start.hyps(1) by (simp_all add: step_def)
  show ?case
    using invariant_fire[OF inv en, of rc]
      store_after_fire[OF inv en, of rc] s' by simp
next
  case (in_flight_step s s' ev s'')
  have inv: "invariant s'" using in_flight_step.IH in_flight_step.prems by simp
  have en: "enabled ev s'" and s'': "s'' = fire rc ev s'"
    using in_flight_step.hyps(3) by (simp_all add: step_def)
  show ?case
    using invariant_fire[OF inv en, of rc]
      store_after_fire[OF inv en in_flight_step.hyps(4), of rc] in_flight_step.hyps(2)
      in_flight_step.IH in_flight_step.prems s''
    by simp
qed

lemma step_fire: "enabled ev s \<Longrightarrow> step rc s ev (fire rc ev s)"
  by (simp add: step_def)

lemma example_steps:
  "step example_compile example_loaded (CreateClicked ''out.tar.gz'') example_started"
  "step example_compile example_started (ThreadRuns 0) example_ran"
  "step example_compile example_ran (Deliver 0) example_delivered1"
  "step example_compile example_delivered1 (Deliver 0) example_delivered2"
  "step example_compile example_delivered2 (Deliver 0) example_finished"
proof -
  show "step example_compile example_loaded (CreateClicked ''out.tar.gz'') example_started"
    unfolding example_started_def by (rule step_fire) (simp add: example_loaded)
  show "step example_compile example_started (ThreadRuns 0) example_ran"
    unfolding example_ran_def by (rule step_fire) (simp add: example_started)
  show "step example_compile example_ran (Deliver 0) example_delivered1"
    unfolding example_delivered1_def by (rule step_fire) (simp add: example_ran)
  show "step example_compile example_delivered1 (Deliver 0) example_delivered2"
    unfolding example_delivered2_def by (rule step_fire) (simp add: example_delivered1)
  show "step example_compile example_delivered2 (Deliver 0) example_finished"
    unfolding example_finished_def by (rule step_fire) (simp add: example_delivered2)
qed

lemma example_in_flight:
  "in_flight example_compile example_loaded example_started"
  "in_flight example_compile example_loaded example_ran"
  "in_flight example_compile example_loaded example_delivered1"
  "in_flight example_compile example_loaded example_delivered2"
  "in_flight example_compile example_loaded example_finished"
proof -
  have t: "thread (window example_started) \<noteq> None" "thread (window example_ran) \<noteq> None"
    "thread (window example_delivered1) \<noteq> None" "thread (window example_delivered2) \<noteq> None"
    by (simp_all add: example_started example_ran example_delivered1 example_delivered2)
  show 1: "in_flight example_compile example_loaded example_started"
    by (rule in_flight_start[OF example_steps(1) t(1)])
  show 2: "in_flight example_compile example_loaded example_ran"
    by (rule in_flight_step[OF 1 t(1) example_steps(2)]) simp
  show 3: "in_flight example_compile example_loaded example_delivered1"
    by (rule in_flight_step[OF 2 t(2) example_steps(3)]) simp
  show 4: "in_flight example_compile example_loaded example_delivered2"
    by (rule in_flight_step[OF 3 t(3) example_steps(4)]) simp
  show "in_flight example_compile example_loaded example_finished"
    by (rule in_flight_step[OF 4 t(4) example_steps(5)]) simp
qed

section \<open>The claims\<close>

text \<open>
  C1.  A run that sends no error notification sends, for a collection of \<open>N\<close> images, the
  \<open>N\<close> step notifications with the indices \<open>0\<close> to \<open>N - 1\<close> in this order, the one with
  index \<open>i\<close> carrying the image at position \<open>i\<close> of the collection, and after them one
  completed notification, and nothing else.
\<close>

theorem run_steps_then_completed:
  assumes "\<forall>e. Error e \<notin> set (fst (run self h fs))"
  shows "fst (run self h fs) =
           map (\<lambda>i. Step i (h (thread_images self) ! i)) [0..<length (h (thread_images self))]
           @ [Completed]"
proof -
  let ?g = "write_archive (thread_archive_file self) (h (thread_images self))"
  have "raised ?g fs = None"
  proof (cases "raised ?g fs")
    case None
    then show ?thesis .
  next
    case (Some e)
    then have "Error e \<in> set (fst (run self h fs))" by (simp add: run_eq run_body_eq)
    then show ?thesis using assms by simp
  qed
  then show ?thesis
    by (simp add: run_eq run_body_eq write_archive_yields_all steps_of_enumerate)
qed

text \<open>The export of the two example images sends no error, and sends the two steps and
  the completion.\<close>

theorem run_steps_then_completed_witness:
  "(\<forall>e. Error e \<notin> set (fst (run example_thread example_heap example_disk)))
   \<and> fst (run example_thread example_heap example_disk) = [Step 0 photo_a, Step 1 photo_b, Completed]"
proof -
  have h: "\<forall>e. Error e \<notin> set (fst (run example_thread example_heap example_disk))"
    by (simp add: example_run)
  show ?thesis
    using h run_steps_then_completed[OF h]
    by (simp add: example_thread_def example_heap_def ArchiveWriterThread_init_def)
qed

text \<open>
  C2.  Whatever the generator handed to the loop does, if, pulled to its end from the file
  system the thread finds, it raises \<open>e\<close>, then what the thread sends is one step for each
  item yielded before, numbered from \<open>0\<close>, and then \<open>Error e\<close>: this error is the only
  terminal notification (so no completed notification is sent and the error is sent
  once), and it is the last notification.  The generator is run through once.
\<close>

theorem run_error_is_last:
  assumes "raised archive_writer fs = Some e"
  shows "fst (run_body archive_writer fs)
           = map (\<lambda>(i, img). Step i img) (enumerate 0 (yields archive_writer fs)) @ [Error e]
         \<and> filter terminal (fst (run_body archive_writer fs)) = [Error e]
         \<and> last (fst (run_body archive_writer fs)) = Error e"
proof -
  have "filter terminal (map (\<lambda>(i, img). Step i img) (enumerate 0 (yields archive_writer fs))) = []"
    by (simp add: filter_empty_conv split: prod.split)
  then show ?thesis using assms by (simp add: run_body_eq)
qed

text \<open>With the second source file missing, the writer yields the first image and
  raises; the thread sends one step and the error, and the archive is left with the
  first member only.\<close>

theorem run_error_is_last_witness:
  "raised (write_archive ''out.tar.gz'' [photo_a, photo_b])
          (example_disk\<lparr>files := [''photo_a.jpg'' \<mapsto> ''AAA'']\<rparr>)
     = Some (OSError ''photo_b.jpg'')
   \<and> fst (run_body (write_archive ''out.tar.gz'' [photo_a, photo_b])
                    (example_disk\<lparr>files := [''photo_a.jpg'' \<mapsto> ''AAA'']\<rparr>))
       = [Step 0 photo_a, Error (OSError ''photo_b.jpg'')]
   \<and> archives (snd (run_body (write_archive ''out.tar.gz'' [photo_a, photo_b])
                              (example_disk\<lparr>files := [''photo_a.jpg'' \<mapsto> ''AAA'']\<rparr>)))
        ''out.tar.gz''
       = Some [(''trip/a.jpg'', ''AAA'')]"
proof -
  let ?fs = "example_disk\<lparr>files := [''photo_a.jpg'' \<mapsto> ''AAA'']\<rparr>"
  have x: "exhaust (write_archive ''out.tar.gz'' [photo_a, photo_b]) ?fs
           = ([photo_a], Some (OSError ''photo_b.jpg''),
              put_archive ''out.tar.gz'' [(''trip/a.jpg'', ''AAA'')] (put_archive ''out.tar.gz'' [] ?fs))"
    by (simp add: write_archive_def example_disk_def photo_a_def photo_b_def put_archive_def)
  have h: "raised (write_archive ''out.tar.gz'' [photo_a, photo_b]) ?fs = Some (OSError ''photo_b.jpg'')"
    by (simp add: raised_def x)
  have y: "yields (write_archive ''out.tar.gz'' [photo_a, photo_b]) ?fs = [photo_a]"
    by (simp add: yields_def x)
  have a: "archives (snd (run_body (write_archive ''out.tar.gz'' [photo_a, photo_b]) ?fs)) ''out.tar.gz''
             = Some [(''trip/a.jpg'', ''AAA'')]"
    by (simp add: run_body_eq leaves_def x put_archive_def)
  show ?thesis
    using run_error_is_last[OF h] h a by (simp add: y)
qed



text \<open>
  C10.  When the selected rows are distinct rows of the collection, the handler pops them
  in strictly descending order, and the collection it leaves is the one before with
  exactly the elements at the selected rows taken out, the others in their order; no
  exception occurs.  The result is the same for every order in which the same rows are
  selected.
\<close>

theorem pops_selected_rows_descending:
  assumes "distinct (selected_rows self)"
    and "\<forall>row \<in> set (selected_rows self). row < length (h (images self))"
  shows "sorted_wrt (>) (sorted_reverse (selected_rows self))
         \<and> on_remove_selected_rows_button_clicked self h
             = (h(images self := nths (h (images self)) {i. i \<notin> set (selected_rows self)}), None)
         \<and> (\<forall>rows. distinct rows \<and> set rows = set (selected_rows self) \<longrightarrow>
               on_remove_selected_rows_button_clicked (self\<lparr>selected_rows := rows\<rparr>) h
               = on_remove_selected_rows_button_clicked self h)"
proof -
  have r: "on_remove_selected_rows_button_clicked w h
             = (h(images w := nths (h (images w)) {i. i \<notin> set (selected_rows w)}), None)"
    if "distinct (selected_rows w)" "\<forall>row \<in> set (selected_rows w). row < length (h (images w))"
    for w
    using pop_each_descending[of "sorted_reverse (selected_rows w)" h "images w"] that
    by (simp add: on_remove_selected_rows_button_clicked_def sorted_reverse_descending
          set_sorted_reverse)
  have "on_remove_selected_rows_button_clicked (self\<lparr>selected_rows := rows\<rparr>) h
          = on_remove_selected_rows_button_clicked self h"
    if "distinct rows" "set rows = set (selected_rows self)" for rows
    using r[of "self\<lparr>selected_rows := rows\<rparr>"] r[of self] that assms by simp
  then show ?thesis
    using r[OF assms] sorted_reverse_descending[OF assms(1)] by blast
qed

text \<open>Rows 0 and 2 of three images: they are popped as 2, then 0; the second image
  stays; selecting them as 2, 0 gives the same.\<close>

theorem pops_selected_rows_descending_witness:
  "distinct [0, 2 :: nat]
   \<and> sorted_reverse [0, 2] = [2, 0]
   \<and> fst (on_remove_selected_rows_button_clicked
             ((fst (MainWindow_init 0 (\<lambda>a. [])))\<lparr>selected_rows := [0, 2]\<rparr>)
             ((\<lambda>a. [])(0 := [photo_a, photo_b, photo_c]))) 0
       = [photo_b]
   \<and> on_remove_selected_rows_button_clicked
             ((fst (MainWindow_init 0 (\<lambda>a. [])))\<lparr>selected_rows := [2, 0]\<rparr>)
             ((\<lambda>a. [])(0 := [photo_a, photo_b, photo_c]))
       = on_remove_selected_rows_button_clicked
             ((fst (MainWindow_init 0 (\<lambda>a. [])))\<lparr>selected_rows := [0, 2]\<rparr>)
             ((\<lambda>a. [])(0 := [photo_a, photo_b, photo_c]))"
proof -
  let ?w = "(fst (MainWindow_init 0 (\<lambda>a. [])))\<lparr>selected_rows := [0, 2]\<rparr>"
  let ?h = "(\<lambda>a. [])(0 := [photo_a, photo_b, photo_c]) :: heap"
  have i: "images ?w = 0" "selected_rows ?w = [0, 2]"
    by (simp_all add: MainWindow_init_def Let_def update_button_states_sel)
  have h1: "distinct (selected_rows ?w)" by (simp add: i)
  have h2: "\<forall>row \<in> set (selected_rows ?w). row < length (?h (images ?w))" by (simp add: i)
  have n: "nths [photo_a, photo_b, photo_c] {i. i \<notin> set [0, 2 :: nat]} = [photo_b]"
    by (simp add: nths_Cons)
  have s: "sorted_reverse [0, 2] = [2, 0]" by (simp add: sorted_reverse_def)
  have e: "distinct [2, 0 :: nat] \<and> set [2, 0 :: nat] = set (selected_rows ?w)"
    by (auto simp: i)
  note t = pops_selected_rows_descending[where self = ?w and h = ?h, OF h1 h2]
  have a: "fst (on_remove_selected_rows_button_clicked ?w ?h) 0 = [photo_b]"
    using t by (simp add: i nths_Cons)
  have "on_remove_selected_rows_button_clicked (?w\<lparr>selected_rows := [2, 0]\<rparr>) ?h
          = on_remove_selected_rows_button_clicked ?w ?h"
    using t e by blast
  then show ?thesis using a s by simp
qed

text \<open>
  C4, as stated, does not hold: the thread keeps the reference it is given.  In the
  example session the thread is started when the collection holds both images, and has not
  run yet.  If the first image is then popped from that collection, the thread, when it
  runs, sends one step only and writes one member only, where a run over the sequence of
  the start time sends two and writes two: the sequence the writer is given is the
  collection as it is when the thread runs.
\<close>

theorem snapshot_counterexample:
  "reachable example_compile example_started
   \<and> runs example_started = [\<lparr>run_thread = example_thread, emitted = None\<rparr>]
   \<and> thread (window example_started) = Some example_thread
   \<and> thread_images example_thread = images (window example_started)
   \<and> store example_started = example_heap
   \<and> pop (images (window example_started)) 0 example_heap = Inr (example_heap(0 := [photo_b]))
   \<and> example_heap (thread_images example_thread) = [photo_a, photo_b]
   \<and> (example_heap(0 := [photo_b])) (thread_images example_thread) = [photo_b]
   \<and> fst (run example_thread example_heap example_disk)
       = [Step 0 photo_a, Step 1 photo_b, Completed]
   \<and> fst (run example_thread (example_heap(0 := [photo_b])) example_disk)
       = [Step 0 photo_b, Completed]
   \<and> fst (run example_thread (example_heap(0 := [photo_b])) example_disk)
       \<noteq> fst (run example_thread example_heap example_disk)
   \<and> archives (snd (run example_thread example_heap example_disk)) ''out.tar.gz''
       = Some [(''trip/a.jpg'', ''AAA''), (''trip/b.jpg'', ''BB'')]
   \<and> archives (snd (run example_thread (example_heap(0 := [photo_b])) example_disk)) ''out.tar.gz''
       = Some [(''trip/b.jpg'', ''BB'')]"
proof -
  have a: "fst (run example_thread example_heap example_disk)
             = [Step 0 photo_a, Step 1 photo_b, Completed]"
    "fst (run example_thread (example_heap(0 := [photo_b])) example_disk)
             = [Step 0 photo_b, Completed]"
    "archives (snd (run example_thread example_heap example_disk)) ''out.tar.gz''
       = Some [(''trip/a.jpg'', ''AAA''), (''trip/b.jpg'', ''BB'')]"
    "archives (snd (run example_thread (example_heap(0 := [photo_b])) example_disk)) ''out.tar.gz''
       = Some [(''trip/b.jpg'', ''BB'')]"
    by (simp_all add: example_thread_def ArchiveWriterThread_init_def example_heap_def run_def
          write_archive_def run_body_def example_disk_def photo_a_def photo_b_def
          put_archive_def)
  have b: "pop 0 0 example_heap = Inr (example_heap(0 := [photo_b]))"
    "thread_images example_thread = 0" "example_heap 0 = [photo_a, photo_b]"
    by (simp_all add: pop_def example_heap_def example_thread_def ArchiveWriterThread_init_def)
  show ?thesis
    using example_reachable(3) by (simp add: example_started a b)
qed

text \<open>
  C4, amended.  The thread holds the reference to the collection of the window, and the
  collection is read when the thread runs.  If, from the click that starts the run to the
  moment the thread runs, the table side has not edited the collection, then what the
  thread emits and what it leaves on disk are those of a run over the collection as it was
  at the click.  Everything else the window can do is allowed in between; the remove
  button cannot be clicked then, being disabled while the thread field is set.
\<close>

theorem run_reads_live_collection:
  assumes "reachable re_compile s" "in_flight re_compile s s'"
    and "step re_compile s' (ThreadRuns k) s''"
  shows "\<exists>t. thread (window s') = Some t
             \<and> run_thread (runs s' ! k) = t
             \<and> thread_images t = images (window s)
             \<and> emitted (runs s'' ! k) = Some (fst (run t (store s) (disk s')))
             \<and> disk s'' = snd (run t (store s) (disk s'))"
proof -
  have f: "invariant s'" "store s' = store s" "images (window s') = images (window s)"
    using in_flight_frame[OF assms(1,2)] by simp_all
  have en: "enabled (ThreadRuns k) s'" and s'': "s'' = fire re_compile (ThreadRuns k) s'"
    using assms(3) by (simp_all add: step_def)
  obtain r where r: "runs s' = [r]" "k = 0"
    using invariant_runs[OF f(1)] en by auto
  have t: "thread (window s') = Some (run_thread r)"
    "thread_images (run_thread r) = images (window s')"
    using f(1) r by (simp_all add: invariant_def)
  show ?thesis
    using r t f(2,3) s'' by (simp add: case_prod_beta)
qed

text \<open>The example session: the thread started by the click runs, and emits what a run
  over the collection at the click emits.\<close>

theorem run_reads_live_collection_witness:
  "reachable example_compile example_loaded
   \<and> in_flight example_compile example_loaded example_started
   \<and> step example_compile example_started (ThreadRuns 0) example_ran
   \<and> thread (window example_started) = Some example_thread
   \<and> thread_images example_thread = images (window example_loaded)
   \<and> emitted (runs example_ran ! 0)
       = Some (fst (run example_thread (store example_loaded) (disk example_started)))
   \<and> emitted (runs example_ran ! 0) = Some [Step 0 photo_a, Step 1 photo_b, Completed]"
proof -
  note h = example_reachable(2) example_in_flight(1) example_steps(2)
  from run_reads_live_collection[OF h]
  have "thread_images example_thread = images (window example_loaded)
        \<and> emitted (runs example_ran ! 0)
            = Some (fst (run example_thread (store example_loaded) (disk example_started)))"
    by (auto simp: example_started)
  then show ?thesis using h by (simp add: example_started example_ran)
qed

text \<open>
  C6.  In every state the window can reach, at most one run is under way, and one is
  under way exactly when the thread field is set.  While the field is set, no click on
  the create button is possible, whatever the file dialog would answer.  And an event
  that happens while the field is set resets the field exactly when it is the delivery
  of the last notification of the run, which is the completed or the error notification.
\<close>

theorem one_run_at_a_time:
  assumes "reachable re_compile s"
  shows "length (runs s) \<le> 1
         \<and> ((thread (window s) \<noteq> None) = (runs s \<noteq> []))
         \<and> (thread (window s) \<noteq> None \<longrightarrow>
              (\<forall>archive_file s'. \<not> step re_compile s (CreateClicked archive_file) s'))
         \<and> (\<forall>ev s'. thread (window s) \<noteq> None \<and> step re_compile s ev s' \<longrightarrow>
               (thread (window s') = None)
               = (\<exists>k n. ev = Deliver k \<and> emitted (runs s ! k) = Some [n] \<and> terminal n))"
proof -
  have inv: "invariant s" using assms by (rule reachable_invariant)
  have 1: "length (runs s) \<le> 1" "(thread (window s) \<noteq> None) = (runs s \<noteq> [])"
    using inv by (simp_all add: invariant_def)
  have 2: "\<not> step re_compile s (CreateClicked archive_file) s'"
    if "thread (window s) \<noteq> None" for archive_file s'
    using inv that by (auto simp: invariant_def step_def)
  have 3: "(thread (window s') = None)
             = (\<exists>k n. ev = Deliver k \<and> emitted (runs s ! k) = Some [n] \<and> terminal n)"
    if "thread (window s) \<noteq> None" "step re_compile s ev s'" for ev s'
    using thread_after_fire[OF inv, of ev re_compile] that by (simp add: step_def)
  show ?thesis using 1 2 3 by blast
qed

text \<open>In the example session, before the completion is delivered: the state is
  reachable, the field is set, a click on the create button is no step, and the delivery
  of the completion resets the field.\<close>

theorem one_run_at_a_time_witness:
  "reachable example_compile example_delivered2
   \<and> thread (window example_delivered2) = Some example_thread
   \<and> runs example_delivered2 = [\<lparr>run_thread = example_thread, emitted = Some [Completed]\<rparr>]
   \<and> \<not> step example_compile example_delivered2 (CreateClicked ''again.tar.gz'')
          (fire example_compile (CreateClicked ''again.tar.gz'') example_delivered2)
   \<and> step example_compile example_delivered2 (Deliver 0) example_finished
   \<and> thread (window example_finished) = None"
proof -
  have r: "reachable example_compile example_delivered2" by (rule example_reachable)
  have t: "thread (window example_delivered2) = Some example_thread"
    by (simp add: example_delivered2 example_started)
  have d: "step example_compile example_delivered2 (Deliver 0) example_finished"
    by (simp add: step_def example_finished_def example_delivered2)
  note c = one_run_at_a_time[OF r]
  have "\<not> step example_compile example_delivered2 (CreateClicked ''again.tar.gz'')
          (fire example_compile (CreateClicked ''again.tar.gz'') example_delivered2)"
    using c t by simp
  moreover have "thread (window example_finished) = None"
    using c t d by (auto simp: example_delivered2)
  ultimately show ?thesis using r t d by (simp add: example_delivered2)
qed

text \<open>
  C7.  From the state in which a click starts a run to every state that follows while
  the run is under way, and to the state in which it has ended with its terminal
  notification, the window refers to the same collection object and all collections are
  as they were; in particular the collection of the window holds the same images in the
  same order.  On the way everything the window can do is allowed, the one exception
  being an edit of the collection by the table side, which is no part of the export.
\<close>

theorem export_leaves_collection:
  assumes "reachable re_compile s" "in_flight re_compile s s'"
  shows "images (window s') = images (window s)
         \<and> store s' (images (window s')) = store s (images (window s))
         \<and> store s' = store s"
  using in_flight_frame[OF assms] by simp

text \<open>The example session from the click to the delivery of the completion: the
  collection holds the two images before and after.\<close>

theorem export_leaves_collection_witness:
  "reachable example_compile example_loaded
   \<and> in_flight example_compile example_loaded example_finished
   \<and> thread (window example_finished) = None
   \<and> status_bar_message (window example_finished) = Archive_created
   \<and> store example_loaded (images (window example_loaded)) = [photo_a, photo_b]
   \<and> store example_finished (images (window example_finished)) = [photo_a, photo_b]"
  using export_leaves_collection[OF example_reachable(2) example_in_flight(5)]
    example_reachable(2) example_in_flight(5)
  by (simp add: example_finished example_loaded example_heap_def)

text \<open>
  C5.  Whenever \<^verbatim>\<open>_update_button_states\<close> runs over a collection in which two images have
  the same archive-relative path, it disables the create button.  In every state the
  window can reach in which two images of the collection have the same archive-relative
  path, the create button is disabled and no click on it is possible, so no export is
  started.  The writer makes no such check: whatever the archive-relative paths are, it
  raises nothing and yields every image, when pulled to its end, if the source files are
  readable and the destination can be opened.
\<close>

theorem duplicate_paths_block_export:
  "(\<not> distinct (map posix_path (h (images self))) \<longrightarrow>
      \<not> create_archive_button_enabled (update_button_states h self))
   \<and> (reachable re_compile s \<and> \<not> distinct (map posix_path (store s (images (window s)))) \<longrightarrow>
        \<not> create_archive_button_enabled (window s)
        \<and> (\<forall>archive_file s'. \<not> step re_compile s (CreateClicked archive_file) s'))
   \<and> ((\<forall>img \<in> set imgs. files fs (path img) \<noteq> None) \<and> writable fs archive_file \<longrightarrow>
        raised (write_archive archive_file imgs) fs = None
        \<and> yields (write_archive archive_file imgs) fs = imgs)"
proof -
  have 1: "\<not> create_archive_button_enabled (update_button_states h self)"
    if "\<not> distinct (map posix_path (h (images self)))"
    using that by (simp add: update_button_states_sel)
  have 2: "\<not> create_archive_button_enabled (window s)
           \<and> (\<forall>archive_file s'. \<not> step re_compile s (CreateClicked archive_file) s')"
    if "reachable re_compile s" "\<not> distinct (map posix_path (store s (images (window s))))"
    using reachable_invariant[OF that(1)] that(2) by (auto simp: invariant_def step_def)
  have 3: "raised (write_archive archive_file imgs) fs = None
           \<and> yields (write_archive archive_file imgs) fs = imgs"
    if "\<forall>img \<in> set imgs. files fs (path img) \<noteq> None" "writable fs archive_file"
    using write_archive_no_raise[OF that] write_archive_yields_all by simp
  show ?thesis using 1 2 3 by blast
qed

text \<open>Two images with the archive-relative path of the first: the state is reachable,
  the create button is disabled; the writer, run on the two, yields both.\<close>

theorem duplicate_paths_block_export_witness:
  "reachable example_compile
     (fire example_compile (ModelChanged [photo_a, photo_b\<lparr>posix_path := ''trip/a.jpg''\<rparr>])
        example_initial)
   \<and> map posix_path
        (store (fire example_compile (ModelChanged [photo_a, photo_b\<lparr>posix_path := ''trip/a.jpg''\<rparr>])
                  example_initial) 0)
       = [''trip/a.jpg'', ''trip/a.jpg'']
   \<and> \<not> create_archive_button_enabled
          (window (fire example_compile
                     (ModelChanged [photo_a, photo_b\<lparr>posix_path := ''trip/a.jpg''\<rparr>])
                     example_initial))
   \<and> writable example_disk ''out.tar.gz''
   \<and> yields (write_archive ''out.tar.gz'' [photo_a, photo_b\<lparr>posix_path := ''trip/a.jpg''\<rparr>])
             example_disk
       = [photo_a, photo_b\<lparr>posix_path := ''trip/a.jpg''\<rparr>]"
proof -
  let ?imgs = "[photo_a, photo_b\<lparr>posix_path := ''trip/a.jpg''\<rparr>]"
  let ?s = "fire example_compile (ModelChanged ?imgs) example_initial"
  have r: "reachable example_compile ?s"
    by (rule reachable_fire[OF example_reachable(1)]) simp
  have i: "images (window ?s) = 0" "store ?s 0 = ?imgs"
    by (simp_all add: example_initial Let_def update_button_states_sel)
  have m: "map posix_path (store ?s 0) = [''trip/a.jpg'', ''trip/a.jpg'']"
    by (simp only: i) (simp add: photo_a_def photo_b_def)
  have d: "\<not> distinct (map posix_path (store ?s (images (window ?s))))"
    by (simp only: i(1) m) simp
  have f: "\<forall>img \<in> set ?imgs. files example_disk (path img) \<noteq> None"
    by (simp add: example_disk_def photo_a_def photo_b_def)
  have w: "writable example_disk ''out.tar.gz''" by (simp add: example_disk_def)
  note t = duplicate_paths_block_export[where s = ?s and re_compile = example_compile
      and imgs = ?imgs and fs = example_disk and archive_file = "''out.tar.gz''"]
  have b: "\<not> create_archive_button_enabled (window ?s)" using t r d by blast
  have y: "yields (write_archive ''out.tar.gz'' ?imgs) example_disk = ?imgs"
    using t f w by blast
  show ?thesis by (intro conjI r m b w y)
qed

text \<open>
  C8.  A change of the filter text changes the pattern of the table model and the style
  of the line edit, and nothing else: not the collection, not the disk, not the runs, no
  other field of the window.  Whatever the pattern is, a click on the create button that
  is answered with a file name starts a thread on the collection of the window, and that
  thread runs the loop on the writer made for the whole collection, in its order.
\<close>

theorem filter_pattern_leaves_export:
  assumes "step re_compile s (TextChanged text) s'" "archive_file \<noteq> []"
  shows "store s' = store s \<and> disk s' = disk s \<and> runs s' = runs s
         \<and> window s' = (window s)\<lparr>posix_path_pattern := posix_path_pattern (window s'),
               regex_line_edit_style_sheet := regex_line_edit_style_sheet (window s')\<rparr>
         \<and> (\<forall>pattern.
               snd (on_create_archive_button_clicked archive_file (store s')
                      ((window s')\<lparr>posix_path_pattern := pattern\<rparr>))
                 = Some (ArchiveWriterThread_init archive_file (images (window s))))
         \<and> run (ArchiveWriterThread_init archive_file (images (window s))) (store s') (disk s')
             = run_body (write_archive archive_file (store s (images (window s)))) (disk s)"
proof -
  have s': "s' = fire re_compile (TextChanged text) s" using assms(1) by (simp add: step_def)
  have frame: "store s' = store s \<and> disk s' = disk s \<and> runs s' = runs s"
    using s' by (simp split: sum.split)
  have w: "window s' = (window s)\<lparr>posix_path_pattern := posix_path_pattern (window s'),
               regex_line_edit_style_sheet := regex_line_edit_style_sheet (window s')\<rparr>"
    using s'
    by (auto simp: on_regex_line_edit_text_changed_def set_posix_path_pattern_def
          split: sum.splits if_splits)
  have i: "images (window s') = images (window s)"
    by (subst w) simp
  have c: "snd (on_create_archive_button_clicked archive_file (store s')
                      ((window s')\<lparr>posix_path_pattern := pattern\<rparr>))
                 = Some (ArchiveWriterThread_init archive_file (images (window s)))" for pattern
    using create_clicked_started(1)[OF assms(2)] i by simp
  have r: "run (ArchiveWriterThread_init archive_file (images (window s))) (store s') (disk s')
             = run_body (write_archive archive_file (store s (images (window s)))) (disk s)"
    using frame by (simp add: run_def ArchiveWriterThread_init_def)
  show ?thesis using frame w c r by blast
qed

text \<open>With a pattern that matches the second example image only, the export still
  sends a step for each of the two images.\<close>

theorem filter_pattern_leaves_export_witness:
  "step example_compile example_loaded (TextChanged ''b[.]jpg'')
     (fire example_compile (TextChanged ''b[.]jpg'') example_loaded)
   \<and> posix_path_pattern (window (fire example_compile (TextChanged ''b[.]jpg'') example_loaded))
       = Some (Pattern ''b[.]jpg'')
   \<and> snd (on_create_archive_button_clicked ''out.tar.gz''
            (store (fire example_compile (TextChanged ''b[.]jpg'') example_loaded))
            (window (fire example_compile (TextChanged ''b[.]jpg'') example_loaded)))
       = Some example_thread
   \<and> fst (run example_thread
            (store (fire example_compile (TextChanged ''b[.]jpg'') example_loaded))
            (disk (fire example_compile (TextChanged ''b[.]jpg'') example_loaded)))
       = [Step 0 photo_a, Step 1 photo_b, Completed]"
proof -
  let ?s = "fire example_compile (TextChanged ''b[.]jpg'') example_loaded"
  have st: "step example_compile example_loaded (TextChanged ''b[.]jpg'') ?s"
    by (rule step_fire) simp
  have ne: "''out.tar.gz'' \<noteq> []" by simp
  note t = filter_pattern_leaves_export[OF st ne]
  have p: "posix_path_pattern (window ?s) = Some (Pattern ''b[.]jpg'')"
    by (simp add: on_regex_line_edit_text_changed_def example_compile_def
          set_posix_path_pattern_def)
  have th: "ArchiveWriterThread_init ''out.tar.gz'' (images (window example_loaded)) = example_thread"
    by (simp add: example_thread_def example_loaded)
  have c: "snd (on_create_archive_button_clicked ''out.tar.gz'' (store ?s) (window ?s))
             = Some example_thread"
  proof -
    have "snd (on_create_archive_button_clicked ''out.tar.gz'' (store ?s)
                 ((window ?s)\<lparr>posix_path_pattern := posix_path_pattern (window ?s)\<rparr>))
            = Some (ArchiveWriterThread_init ''out.tar.gz'' (images (window example_loaded)))"
      using t by blast
    then show ?thesis by (simp add: th)
  qed
  have "store ?s = example_heap" "disk ?s = example_disk"
    using t by (simp_all add: example_loaded)
  then have "fst (run example_thread (store ?s) (disk ?s)) = [Step 0 photo_a, Step 1 photo_b, Completed]"
    by (simp add: example_run)
  then show ?thesis using st p c by simp
qed

text \<open>
  C9.  The handler at the text \<^verbatim>\<open>a{99999999999}\<close>.  For this text \<^verbatim>\<open>re.compile\<close> raises
  \<^verbatim>\<open>OverflowError\<close> (the repetition number is too large), which is not \<^verbatim>\<open>re.error\<close>: the
  exception leaves the handler, and no pattern is set.
\<close>

theorem text_changed_overflow_escapes:
  "on_regex_line_edit_text_changed
     (\<lambda>text. if text = ''a{99999999999}'' then Inl OverflowError else Inr (Pattern text))
     ''a{99999999999}'' self
   = Inl OverflowError"
  by (simp add: on_regex_line_edit_text_changed_def)

end
